theory Spec2Isabelle
  imports Complex_Main "HOL-Library.Log_Nat"
begin

section \<open>The data model of \<^verbatim>\<open>action_graph/planner.py\<close>\<close>

text \<open>
  State values are Python objects compared with \<^verbatim>\<open>==\<close>. Python compares and hashes
  \<^verbatim>\<open>True\<close> as \<^verbatim>\<open>1\<close> and \<^verbatim>\<open>False\<close> as \<^verbatim>\<open>0\<close>, so booleans and numbers are one
  constructor. \<open>VEllipsis\<close> is Python's \<^verbatim>\<open>Ellipsis\<close>, the key of the wildcard
  bucket of the action lookup. A string is a list of characters, one per code point.
\<close>

datatype val = VNum real | VStr string | VEllipsis

text \<open>
  \<^verbatim>\<open>State\<close> is a dict: an association list in insertion order, keys are names.
\<close>

type_synonym state = "(string \<times> val) list"

text \<open>
  A cost is a Python float, an IEEE 754 double, that is not negative and not NaN:
  \<open>Fin x\<close> for the finite double of value \<open>x\<close>, or \<^verbatim>\<open>float("inf")\<close>. The specification
  has no negative cost; with negative costs a Python total can be negative infinity or
  NaN, which the model does not have.
\<close>

datatype ecost = Fin real | Inf

text \<open>The integer nearest to \<open>x\<close>, the even one of the two when \<open>x\<close> is half way.\<close>

definition round_half_even :: "real \<Rightarrow> int" where
  "round_half_even x =
     (let f = \<lfloor>x\<rfloor>
      in if x - of_int f < 1 / 2 then f
         else if 1 / 2 < x - of_int f then f + 1
         else if even f then f else f + 1)"

text \<open>
  The rounding of a real number to a double (round to nearest, ties to even). With
  \<open>u\<close> the magnitude in units of \<open>2\<^sup>-\<^sup>1\<^sup>0\<^sup>7\<^sup>4\<close>, the smallest positive double, the
  doubles around \<open>u\<close> are the multiples of \<open>q\<close>: one unit up to 53 bits, and a
  power of two that leaves 53 significant bits beyond. A positive result of
  \<open>2\<^sup>1\<^sup>0\<^sup>2\<^sup>4\<close> or more overflows to \<^verbatim>\<open>inf\<close>.
\<close>

definition round_double :: "real \<Rightarrow> ecost" where
  "round_double x =
     (let u = \<bar>x\<bar> * 2 ^ 1074;
          q = 2 ^ nat (bitlen \<lfloor>u\<rfloor> - 53);
          y = of_int (round_half_even (u / q)) * q
      in if 0 < x \<and> 2 ^ 2098 \<le> y then Inf else Fin (sgn x * y / 2 ^ 1074))"

text \<open>The addition of two floats: the exact sum, rounded; \<^verbatim>\<open>inf\<close> absorbs.\<close>

fun cost_add :: "ecost \<Rightarrow> ecost \<Rightarrow> ecost" where
  "cost_add (Fin a) (Fin b) = round_double (a + b)"
| "cost_add _ _ = Inf"

text \<open>The comparison \<^verbatim>\<open><\<close> of two floats.\<close>

fun cost_less :: "ecost \<Rightarrow> ecost \<Rightarrow> bool" where
  "cost_less (Fin a) (Fin b) = (a < b)"
| "cost_less (Fin a) Inf = True"
| "cost_less Inf _ = False"

text \<open>\<^verbatim>\<open>sys.float_info.max\<close>, the largest finite double.\<close>

definition float_max :: real where
  "float_max = (2 ^ 53 - 1) * 2 ^ 971"

text \<open>
  Modelled from the spec: the class \<^verbatim>\<open>Action\<close> of \<^verbatim>\<open>action_graph/action.py\<close>, which
  is not among the sources. The spec gives it three observable attributes
  (preconditions, effects, cost) and value equality and hashing; \<open>name\<close> stands for
  the identity of the Python object (its class).
\<close>

record action =
  name :: string
  preconditions :: state
  effects :: state
  cost :: ecost

text \<open>
  Modelled from the spec: \<^verbatim>\<open>ActionImpossible()\<close> of \<^verbatim>\<open>action_graph/action.py\<close>, the
  sentinel with empty preconditions, empty effects and cost \<open>+\<infinity>\<close>.
\<close>

definition ActionImpossible :: action where
  "ActionImpossible =
     \<lparr>name = ''ActionImpossible'', preconditions = [], effects = [], cost = Inf\<rparr>"

type_synonym triple = "action \<times> state \<times> ecost"
type_synonym path = "triple list"

text \<open>\<^verbatim>\<open>Plan = OrderedDict[Action, State]\<close>: the items in insertion order.\<close>

type_synonym plan = "(action \<times> state) list"

text \<open>
  The exceptions of the module. \<open>GoalUnreachable\<close> is the \<^verbatim>\<open>Exception\<close> of
  \<^verbatim>\<open>__find_actions\<close>, whose message names \<^verbatim>\<open>target_state\<close>; \<open>ReferenceError\<close> is
  the one of \<^verbatim>\<open>__check_references\<close>, whose message names \<^verbatim>\<open>ref\<close>.
\<close>

datatype error = IndexError | ReferenceError val | GoalUnreachable state

text \<open>
  The result of a search: \<open>None\<close> when the recursion budget ran out before an
  answer, \<open>Some (Inl e)\<close> when the code raises \<open>e\<close>, \<open>Some (Inr x)\<close> when it
  returns \<open>x\<close>.
\<close>

type_synonym 'a result = "(error + 'a) option"

section \<open>The action lookup\<close>

text \<open>
  \<^verbatim>\<open>_action_lookup\<close> is a \<^verbatim>\<open>defaultdict(list)\<close>: every key that was never stored
  reads as the empty list.
\<close>

type_synonym lookup = "string \<times> val \<Rightarrow> action list"

definition create_action_lookup :: "action list \<Rightarrow> lookup" where
  "create_action_lookup actions =
     fold (\<lambda>action lookup_actions.
             fold (\<lambda>kv lk. lk(kv := lk kv @ [action])) (effects action) lookup_actions)
          actions (\<lambda>_. [])"

section \<open>Reference resolution\<close>

text \<open>
  \<^verbatim>\<open>__check_references\<close>: \<^verbatim>\<open>ref[1:]\<close> is \<open>drop 1\<close>; the read \<^verbatim>\<open>state[ref[1:]]\<close>
  is inside \<^verbatim>\<open>try\<close>, and a failing read is re-raised as the module's exception.
\<close>

definition check_references :: "val \<Rightarrow> state \<Rightarrow> error + val" where
  "check_references ref state =
     (case ref of
        VStr s \<Rightarrow>
          (if drop 1 s \<in> set (map fst state)
           then (case map_of state (drop 1 s) of
                   Some v \<Rightarrow> Inr v
                 | None \<Rightarrow> Inl (ReferenceError ref))
           else Inr ref)
      | _ \<Rightarrow> Inr ref)"

section \<open>Paths and plans\<close>

text \<open>
  \<^verbatim>\<open>sum(a.cost for a, _, cost in path)\<close>: the sum starts at 0 and adds the costs from
  the left, one rounded float addition for each triple (the \<^verbatim>\<open>sum\<close> of CPython before
  3.12; later versions carry a correction term for floats).
\<close>

definition path_cost :: "path \<Rightarrow> ecost" where
  "path_cost path = fold (\<lambda>(a, _, _) total. cost_add total (cost a)) path (Fin 0)"

text \<open>
  \<^verbatim>\<open>__unique\<close>: the comprehension keeps \<open>x\<close> when it is not in the set yet, and adds it.
\<close>

fun unique_from :: "'a set \<Rightarrow> 'a list \<Rightarrow> 'a list" where
  "unique_from seen [] = []"
| "unique_from seen (x # xs) =
     (if x \<in> seen then unique_from seen xs else x # unique_from (insert x seen) xs)"

definition unique :: "'a list \<Rightarrow> 'a list" where
  "unique path = unique_from {} path"

text \<open>
  \<^verbatim>\<open>plan[action] = effects\<close> on an \<^verbatim>\<open>OrderedDict\<close>: a key already present keeps its
  place and takes the new value, a new key goes to the end.
\<close>

fun plan_set :: "action \<Rightarrow> state \<Rightarrow> plan \<Rightarrow> plan" where
  "plan_set a e [] = [(a, e)]"
| "plan_set a e ((b, d) # rest) =
     (if b = a then (b, e) # rest else (b, d) # plan_set a e rest)"

definition path_to_plan :: "path \<Rightarrow> plan" where
  "path_to_plan path = fold (\<lambda>(action, effects, cost) plan. plan_set action effects plan) path []"

section \<open>The regression search\<close>

text \<open>
  The inner loop of \<^verbatim>\<open>__find_actions\<close> over \<^verbatim>\<open>action.preconditions.items()\<close>;
  \<open>solve\<close> is the recursive call \<^verbatim>\<open>self.__find_actions({pk: pv}, start_state)\<close>.
\<close>

fun explore_preconditions ::
  "(state \<Rightarrow> path result) \<Rightarrow> state \<Rightarrow> state \<Rightarrow> path \<Rightarrow> path result" where
  "explore_preconditions solve expected_outcome [] action_path = Some (Inr action_path)"
| "explore_preconditions solve expected_outcome ((pk, pv) # rest) action_path =
     (case check_references pv expected_outcome of
        Inl e \<Rightarrow> Some (Inl e)
      | Inr pv' \<Rightarrow>
          (case solve [(pk, pv')] of
             None \<Rightarrow> None
           | Some (Inl e) \<Rightarrow> Some (Inl e)
           | Some (Inr sub_path) \<Rightarrow>
               explore_preconditions solve expected_outcome rest (action_path @ sub_path)))"

text \<open>The body of the outer loop up to the comparison: the candidate's \<^verbatim>\<open>action_path\<close>.\<close>

definition expand_action :: "(state \<Rightarrow> path result) \<Rightarrow> state \<Rightarrow> action \<Rightarrow> path result" where
  "expand_action solve expected_outcome action =
     (case explore_preconditions solve expected_outcome (preconditions action) [] of
        None \<Rightarrow> None
      | Some (Inl e) \<Rightarrow> Some (Inl e)
      | Some (Inr action_path) \<Rightarrow>
          Some (Inr (action_path @ [(action, expected_outcome, cost action)])))"

text \<open>The outer loop over \<^verbatim>\<open>probable_actions\<close>, carrying \<^verbatim>\<open>chosen_path\<close>.\<close>

fun explore_actions ::
  "(state \<Rightarrow> path result) \<Rightarrow> state \<Rightarrow> action list \<Rightarrow> path \<Rightarrow> path result" where
  "explore_actions solve expected_outcome [] chosen_path = Some (Inr chosen_path)"
| "explore_actions solve expected_outcome (action # rest) chosen_path =
     (case expand_action solve expected_outcome action of
        None \<Rightarrow> None
      | Some (Inl e) \<Rightarrow> Some (Inl e)
      | Some (Inr action_path) \<Rightarrow>
          explore_actions solve expected_outcome rest
            (if chosen_path = [] then action_path
             else if cost_less (path_cost action_path) (path_cost chosen_path)
                  then action_path else chosen_path))"

text \<open>
  \<^verbatim>\<open>__find_actions\<close>. The first argument bounds the depth of the recursion: the code
  recurses without a bound, and a search that needs more depth than the budget has no
  answer (\<open>None\<close>).
\<close>

fun find_actions :: "nat \<Rightarrow> lookup \<Rightarrow> state \<Rightarrow> state \<Rightarrow> path result" where
  "find_actions 0 action_lookup target_state start_state = None"
| "find_actions (Suc n) action_lookup target_state start_state =
     (case target_state of
        [] \<Rightarrow> Some (Inl IndexError)
      | (gk, gv0) # _ \<Rightarrow>
          (case check_references gv0 start_state of
             Inl e \<Rightarrow> Some (Inl e)
           | Inr gv \<Rightarrow>
               if (gk, gv) \<in> set start_state then Some (Inr [])
               else
                 let probable_actions =
                       (if action_lookup (gk, gv) \<noteq> [] then action_lookup (gk, gv)
                        else action_lookup (gk, VEllipsis))
                 in if probable_actions = [] then Some (Inr [(ActionImpossible, [], Inf)])
                    else
                      (case explore_actions
                              (\<lambda>goal. find_actions n action_lookup goal start_state)
                              [(gk, gv)] probable_actions [] of
                         None \<Rightarrow> None
                       | Some (Inl e) \<Rightarrow> Some (Inl e)
                       | Some (Inr chosen_path) \<Rightarrow>
                           if cost_less (Fin float_max) (path_cost chosen_path)
                           then Some (Inl (GoalUnreachable target_state))
                           else Some (Inr (unique chosen_path)))))"

text \<open>
  \<^verbatim>\<open>find_plan\<close> of a planner built from \<open>actions\<close>: \<^verbatim>\<open>__init__\<close> stores the lookup,
  \<^verbatim>\<open>find_plan\<close> searches and assembles the plan.
\<close>

definition find_plan :: "nat \<Rightarrow> action list \<Rightarrow> state \<Rightarrow> state \<Rightarrow> plan result" where
  "find_plan n actions start_state target_state =
     (case find_actions n (create_action_lookup actions) target_state start_state of
        None \<Rightarrow> None
      | Some (Inl e) \<Rightarrow> Some (Inl e)
      | Some (Inr path) \<Rightarrow> Some (Inr (path_to_plan path)))"

section \<open>Notions of the specification\<close>

text \<open>
  The indirect reference as the specification words it: a textual value whose first
  character is the sigil and whose remainder is a key of the context state.
\<close>

fun indirect_reference :: "char \<Rightarrow> val \<Rightarrow> state \<Rightarrow> bool" where
  "indirect_reference sigil (VStr (c # rest)) state = (c = sigil \<and> rest \<in> set (map fst state))"
| "indirect_reference sigil _ state = False"

text \<open>The steps of a path without their costs, and the outcomes they predict.\<close>

definition steps :: "path \<Rightarrow> plan" where
  "steps path = map (\<lambda>(a, e, c). (a, e)) path"

definition outcomes :: "path \<Rightarrow> state set" where
  "outcomes path = set (map (\<lambda>(a, e, c). e) path)"

text \<open>
  A precondition \<open>(pk, pv)\<close> of a step with outcome \<open>e\<close> is met when its value,
  resolved against \<open>e\<close> and then against the start state as the search resolves it,
  holds in the start state or is the predicted outcome of a step that came before;
  \<open>established\<close> is the set of those outcomes. A step is ready when all the
  preconditions of its action are met.
\<close>

definition precondition_met :: "state \<Rightarrow> state set \<Rightarrow> state \<Rightarrow> string \<times> val \<Rightarrow> bool" where
  "precondition_met start_state established e p =
     (case check_references (snd p) e of
        Inl _ \<Rightarrow> False
      | Inr pv' \<Rightarrow>
          (case check_references pv' start_state of
             Inl _ \<Rightarrow> False
           | Inr g \<Rightarrow> (fst p, g) \<in> set start_state \<or> [(fst p, g)] \<in> established))"

definition step_ready :: "state \<Rightarrow> state set \<Rightarrow> action \<times> state \<Rightarrow> bool" where
  "step_ready start_state established step =
     list_all (precondition_met start_state established (snd step)) (preconditions (fst step))"

fun ordered_after :: "state \<Rightarrow> state set \<Rightarrow> plan \<Rightarrow> bool" where
  "ordered_after start_state established [] = True"
| "ordered_after start_state established (step # rest) =
     (step_ready start_state established step \<and>
      ordered_after start_state (insert (snd step) established) rest)"

text \<open>Topological validity of a plan: every step is ready after the steps before it.\<close>

definition plan_valid :: "state \<Rightarrow> plan \<Rightarrow> bool" where
  "plan_valid start_state plan = ordered_after start_state {} plan"

text \<open>A path all of whose actions have a finite cost.\<close>

definition bounded :: "path \<Rightarrow> bool" where
  "bounded path = list_all (\<lambda>(a, e, c). cost a \<noteq> Inf) path"

text \<open>The sum of the cost components of the triples, and paths where it is the actions' cost.\<close>

definition triple_costs :: "path \<Rightarrow> ecost" where
  "triple_costs path = fold (\<lambda>(_, _, c) total. cost_add total c) path (Fin 0)"

definition costs_agree :: "path \<Rightarrow> bool" where
  "costs_agree path = list_all (\<lambda>(a, e, c). c = cost a) path"

text \<open>
  What a sub-search hands to its caller: a path in valid order which, when it bears no
  infinite cost, establishes the resolved goal unless the start state holds it already.
\<close>

definition sub_result_ok :: "state \<Rightarrow> state \<Rightarrow> path \<Rightarrow> bool" where
  "sub_result_ok start_state goal path =
     (ordered_after start_state {} (steps path) \<and>
      (bounded path \<longrightarrow>
         (case goal of
            [] \<Rightarrow> True
          | (gk, gv0) # _ \<Rightarrow>
              (case check_references gv0 start_state of
                 Inl _ \<Rightarrow> True
               | Inr gv \<Rightarrow> (gk, gv) \<in> set start_state \<or> [(gk, gv)] \<in> outcomes path))))"

text \<open>
  What the expansion of a candidate for the outcome \<open>e\<close> gives: a path that is not
  empty, holds a step with outcome \<open>e\<close>, and is in valid order when it bears no
  infinite cost.
\<close>

definition candidate_ok :: "state \<Rightarrow> state \<Rightarrow> path \<Rightarrow> bool" where
  "candidate_ok start_state e path =
     (path \<noteq> [] \<and> e \<in> outcomes path \<and>
      (bounded path \<longrightarrow> ordered_after start_state {} (steps path)))"

section \<open>Example catalogs\<close>

definition mk_action :: "string \<Rightarrow> state \<Rightarrow> state \<Rightarrow> real \<Rightarrow> action" where
  "mk_action n pre eff c = \<lparr>name = n, preconditions = pre, effects = eff, cost = Fin c\<rparr>"

text \<open>Scenario 1 of the specification: get the axe, then chop the wood.\<close>

definition axe_actions :: "action list" where
  "axe_actions =
     [mk_action ''A1'' [] [(''has_axe'', VNum 1)] 1,
      mk_action ''A2'' [(''has_axe'', VNum 1)] [(''wood_chopped'', VNum 1)] 2]"

text \<open>Scenario 2 of the specification: two ways to open, of cost 5 and of cost 1 + 1.\<close>

definition key_actions :: "action list" where
  "key_actions =
     [mk_action ''B1'' [] [(''key'', VStr ''open'')] 5,
      mk_action ''B2'' [(''has_key'', VNum 1)] [(''key'', VStr ''open'')] 1,
      mk_action ''B3'' [] [(''has_key'', VNum 1)] 1]"

text \<open>
  A goal with two candidates: \<open>Walk\<close> needs no precondition, \<open>Drive\<close> needs a car,
  the car needs money, and no action produces money.
\<close>

definition travel_actions :: "action list" where
  "travel_actions =
     [mk_action ''Drive'' [(''has_car'', VNum 1)] [(''arrived'', VNum 1)] 1,
      mk_action ''Walk'' [] [(''arrived'', VNum 1)] 5,
      mk_action ''BuyCar'' [(''has_money'', VNum 1)] [(''has_car'', VNum 1)] 1]"

text \<open>
  A diamond: \<open>Build\<close> needs walls and a roof, both need wood, one action cuts wood.
\<close>

definition build_actions :: "action list" where
  "build_actions =
     [mk_action ''Build'' [(''walls'', VNum 1), (''roof'', VNum 1)] [(''house'', VNum 1)] 1,
      mk_action ''Walls'' [(''wood'', VNum 1)] [(''walls'', VNum 1)] 1,
      mk_action ''Roof'' [(''wood'', VNum 1)] [(''roof'', VNum 1)] 1,
      mk_action ''Cut'' [] [(''wood'', VNum 1)] 1]"

text \<open>
  A service action used for two outcomes: \<open>Set\<close> gives \<open>x\<close> any value, and needs
  \<open>y\<close> to hold the value it is asked for (the reference \<open>@x\<close>).
\<close>

definition service_actions :: "action list" where
  "service_actions =
     [mk_action ''Top'' [(''p'', VNum 1), (''q'', VNum 1)] [(''g'', VNum 1)] 1,
      mk_action ''P'' [(''x'', VNum 1)] [(''p'', VNum 1)] 1,
      mk_action ''Q'' [(''x'', VNum 2)] [(''q'', VNum 1)] 1,
      mk_action ''Set'' [(''y'', VStr ''@x'')] [(''x'', VEllipsis)] 1,
      mk_action ''Y1'' [] [(''y'', VNum 1)] 1,
      mk_action ''Y2'' [] [(''y'', VNum 2)] 1]"


section \<open>The arithmetic of doubles\<close>

lemma round_half_even_of_int: "round_half_even (of_int k) = k"
  by (simp add: round_half_even_def)

lemma round_double_0: "round_double 0 = Fin 0"
  by (simp add: round_double_def round_half_even_def)

lemma scaled_rounding:
  fixes n :: int and m :: nat
  assumes "0 < n" and "53 \<le> m"
  defines "u \<equiv> real_of_int n * 2 ^ m"
  shows "real_of_int (round_half_even (u / 2 ^ nat (bitlen \<lfloor>u\<rfloor> - 53))) *
           2 ^ nat (bitlen \<lfloor>u\<rfloor> - 53) =
         real_of_int (round_half_even (of_int n / 2 ^ nat (bitlen n - 53))) *
           2 ^ nat (bitlen n - 53) * 2 ^ m"
proof -
  let ?b = "bitlen n"
  from assms(1) have b1: "1 \<le> ?b"
    using bitlen_eq_zero_iff [of n] bitlen_nonneg [of n] by linarith
  have "u = of_int (n * 2 ^ m)" by (simp add: u_def)
  then have "\<lfloor>u\<rfloor> = n * 2 ^ m" by (simp only: floor_of_int)
  then have bl: "bitlen \<lfloor>u\<rfloor> = ?b + int m"
    using assms(1) by (simp only: bitlen_pow2)
  show ?thesis
  proof (cases "53 \<le> ?b")
    case True
    then have "nat (?b + int m - 53) = m + nat (?b - 53)" by linarith
    then have q: "(2::real) ^ nat (bitlen \<lfloor>u\<rfloor> - 53) = 2 ^ m * 2 ^ nat (?b - 53)"
      unfolding bl by (simp only: power_add)
    have "u / (2 ^ m * 2 ^ nat (?b - 53)) = of_int n / 2 ^ nat (?b - 53)"
      by (simp add: u_def)
    then show ?thesis
      unfolding q by (simp only:) (simp only: mult_ac)
  next
    case False
    define s where "s = nat (?b + int m - 53)"
    define d where "d = m - s"
    from False b1 assms(2) have sd: "s + d = m" by (simp add: s_def d_def)
    from False have "nat (?b - 53) = 0" by simp
    then have q1: "(2::real) ^ nat (?b - 53) = 1" by (simp only: power_0)
    have q: "(2::real) ^ nat (bitlen \<lfloor>u\<rfloor> - 53) = 2 ^ s"
      unfolding bl s_def ..
    have m: "(2::real) ^ m = 2 ^ s * 2 ^ d"
      by (simp only: power_add [symmetric] sd)
    have "u / 2 ^ s = of_int (n * 2 ^ d)"
      by (simp add: u_def m)
    then have "round_half_even (u / 2 ^ s) = n * 2 ^ d"
      by (simp only: round_half_even_of_int)
    then have "real_of_int (round_half_even (u / 2 ^ s)) * 2 ^ s = of_int n * (2 ^ s * 2 ^ d)"
      by simp
    then show ?thesis
      unfolding q q1 by (simp only: m [symmetric] div_by_1 round_half_even_of_int mult_1_right)
  qed
qed

lemma round_double_of_int:
  fixes n :: int
  assumes "0 < n"
  shows "round_double (of_int n) =
     (let q = 2 ^ nat (bitlen n - 53);
          y = of_int (round_half_even (of_int n / q)) * q
      in if 2 ^ 1024 \<le> y then Inf else Fin y)"
proof -
  define m :: nat where "m = 1074"
  define y where
    "y = real_of_int (round_half_even (of_int n / 2 ^ nat (bitlen n - 53))) *
           2 ^ nat (bitlen n - 53)"
  define u where "u = real_of_int n * 2 ^ m"
  define y' where
    "y' = real_of_int (round_half_even (u / 2 ^ nat (bitlen \<lfloor>u\<rfloor> - 53))) *
            2 ^ nat (bitlen \<lfloor>u\<rfloor> - 53)"
  have y': "y' = y * 2 ^ m"
    unfolding y'_def y_def u_def by (rule scaled_rounding [OF assms]) (simp add: m_def)
  have pos: "(0::real) < 2 ^ m" by simp
  have abs: "\<bar>real_of_int n\<bar> = real_of_int n" and sgn: "sgn (real_of_int n) = 1"
    and gt: "0 < real_of_int n"
    using assms by simp_all
  have "round_double (of_int n) = (if 2 ^ 2098 \<le> y' then Inf else Fin (y' / 2 ^ m))"
    unfolding round_double_def Let_def abs sgn y'_def u_def m_def
    using gt by (simp only: if_True simp_thms mult_1)
  also have "(2::real) ^ 2098 = 2 ^ 1024 * 2 ^ m"
  proof -
    have "(2098::nat) = 1024 + m" by (simp add: m_def)
    then show ?thesis by (simp only: power_add)
  qed
  also have "(2 ^ 1024 * 2 ^ m \<le> y') = ((2::real) ^ 1024 \<le> y)"
    unfolding y' using pos by (rule mult_le_cancel_right_pos)
  also have "y' / 2 ^ m = y"
    unfolding y' using pos by simp
  finally show ?thesis
    unfolding y_def Let_def .
qed

lemma round_double_small:
  assumes "x \<in> \<nat>" and "x < 2 ^ 53"
  shows "round_double x = Fin x"
proof -
  from assms(1) obtain k :: nat where x: "x = of_nat k" by (auto elim: Nats_cases)
  show ?thesis
  proof (cases "k = 0")
    case True
    then show ?thesis by (simp add: x round_double_0)
  next
    case False
    let ?n = "int k"
    from False have n: "0 < ?n" by simp
    have xn: "x = real_of_int ?n" by (simp add: x)
    from assms(2) have "real_of_int ?n < real_of_int (2 ^ 53)"
      unfolding xn by simp
    then have lt: "?n < 2 ^ 53" by (simp only: of_int_less_iff)
    from bitlen_bounds [OF n] lt have p: "(2::int) ^ nat (bitlen ?n - 1) < 2 ^ 53" by linarith
    have "nat (bitlen ?n - 1) < 53"
      by (rule power_less_imp_less_exp [of "2::int"]) (simp, fact p)
    then have "nat (bitlen ?n - 53) = 0" by linarith
    then have q: "(2::real) ^ nat (bitlen ?n - 53) = 1" by (simp only: power_0)
    have "(2::real) ^ 53 < 2 ^ 1024"
      by (rule power_strict_increasing) simp_all
    with assms(2) have "\<not> 2 ^ 1024 \<le> x" by linarith
    then show ?thesis
      unfolding xn round_double_of_int [OF n] Let_def q
      by (simp only: div_by_1 round_half_even_of_int mult_1_right if_False)
  qed
qed

lemma bitlen_between:
  fixes n :: int
  assumes "2 ^ k \<le> n" and "n < 2 ^ Suc k"
  shows "bitlen n = int (Suc k)"
proof (rule antisym)
  from assms(2) show "bitlen n \<le> int (Suc k)"
    by (simp only: bitlen_le_iff_power nat_int) simp
  from assms(1) show "int (Suc k) \<le> bitlen n"
    by (simp only: bitlen_ge_iff_power nat_int) simp
qed

lemma round_double_1e16: "round_double 10000000000000000 = Fin 10000000000000000"
proof -
  define n :: int where "n = 10000000000000000"
  have n: "0 < n" by (simp add: n_def)
  have "bitlen n = int (Suc 53)"
    by (rule bitlen_between) (simp_all add: n_def)
  then have e: "nat (bitlen n - 53) = 1" by simp
  have r: "round_half_even (real_of_int n / 2 ^ 1) = 5000000000000000"
    by (simp add: n_def round_half_even_def Let_def)
  have "round_double (real_of_int n) = Fin 10000000000000000"
    unfolding round_double_of_int [OF n] e Let_def r by simp
  then show ?thesis by (simp add: n_def)
qed

lemma round_double_1e16_plus_1: "round_double 10000000000000001 = Fin 10000000000000000"
proof -
  define n :: int where "n = 10000000000000001"
  have n: "0 < n" by (simp add: n_def)
  have "bitlen n = int (Suc 53)"
    by (rule bitlen_between) (simp_all add: n_def)
  then have e: "nat (bitlen n - 53) = 1" by simp
  have r: "round_half_even (real_of_int n / 2 ^ 1) = 5000000000000000"
    by (simp add: n_def round_half_even_def Let_def)
  have "round_double (real_of_int n) = Fin 10000000000000000"
    unfolding round_double_of_int [OF n] e Let_def r by simp
  then show ?thesis by (simp add: n_def)
qed

lemma cost_add_rounds:
  "cost_add (Fin 10000000000000000) (Fin 1) = Fin 10000000000000000"
  by (simp add: round_double_1e16_plus_1)

lemma cost_add_overflows: "cost_add (Fin float_max) (Fin float_max) = Inf"
proof -
  define n :: int where "n = (2 ^ 53 - 1) * 2 ^ 972"
  have n: "0 < n" by (simp add: n_def)
  have "bitlen (2 ^ 53 - 1) = int (Suc 52)"
    by (rule bitlen_between) simp_all
  then have b: "bitlen n = 1025"
    unfolding n_def by (subst bitlen_pow2) simp_all
  have s: "float_max + float_max = real_of_int n"
  proof -
    have "(2::real) ^ 972 = 2 * 2 ^ 971" by (simp only: power_Suc [symmetric]) simp
    then show ?thesis by (simp add: float_max_def n_def)
  qed
  have e: "nat (1025 - 53) = 972" by simp
  have "real_of_int n / 2 ^ 972 = of_int (2 ^ 53 - 1)"
    by (simp add: n_def)
  then have y: "real_of_int (round_half_even (real_of_int n / 2 ^ 972)) * 2 ^ 972 = real_of_int n"
    by (simp only: round_half_even_of_int) (simp add: n_def)
  have "(2::real) ^ 1024 \<le> real_of_int n"
  proof -
    have "(2::real) ^ 1024 = 2 ^ 52 * 2 ^ 972" by (simp only: power_add [symmetric]) simp
    moreover have "(2::real) ^ 52 \<le> 2 ^ 53 - 1" by simp
    ultimately show ?thesis by (simp add: n_def)
  qed
  then show ?thesis
    unfolding cost_add.simps s round_double_of_int [OF n] b e Let_def y by simp
qed

lemma cost_add_at_float_max: "cost_add (Fin float_max) (Fin 1) = Fin float_max"
proof -
  define n :: int where "n = (2 ^ 53 - 1) * 2 ^ 971 + 1"
  have n: "0 < n" by (simp add: n_def)
  have lo: "(2::int) ^ 1023 \<le> n"
  proof -
    have "(2::int) ^ 1023 = 2 ^ 52 * 2 ^ 971" by (simp only: power_add [symmetric]) simp
    moreover have "(2::int) ^ 52 * 2 ^ 971 \<le> (2 ^ 53 - 1) * 2 ^ 971"
      by (rule mult_right_mono) simp_all
    ultimately show ?thesis by (simp add: n_def)
  qed
  have hi: "n < 2 ^ Suc 1023"
  proof -
    have "(2::int) ^ Suc 1023 = 2 ^ 53 * 2 ^ 971" by (simp only: power_add [symmetric]) simp
    also have "\<dots> = (2 ^ 53 - 1) * 2 ^ 971 + 2 ^ 971" by (simp add: algebra_simps)
    finally show ?thesis by (simp add: n_def)
  qed
  have b: "bitlen n = 1024"
    using bitlen_between [OF lo hi] by simp
  have s: "float_max + 1 = real_of_int n"
    by (simp add: float_max_def n_def)
  have e: "nat (1024 - 53) = 971" by simp
  have d: "real_of_int n / 2 ^ 971 = of_int (2 ^ 53 - 1) + 1 / 2 ^ 971"
    by (simp add: n_def field_simps)
  have small: "(1::real) / 2 ^ 971 < 1 / 2"
  proof -
    have "(2::real) ^ 1 < 2 ^ 971" by (rule power_strict_increasing) simp_all
    then show ?thesis by (simp add: field_simps)
  qed
  have f: "\<lfloor>real_of_int n / 2 ^ 971\<rfloor> = 2 ^ 53 - 1"
    unfolding d using small by (intro floor_unique) simp_all
  have c: "real_of_int n / 2 ^ 971 - real_of_int (2 ^ 53 - 1) < 1 / 2"
    unfolding d using small by (simp only: add_diff_cancel_left')
  have r: "round_half_even (real_of_int n / 2 ^ 971) = 2 ^ 53 - 1"
    unfolding round_half_even_def Let_def f using c by (simp only: if_True)
  have lt: "\<not> (2::real) ^ 1024 \<le> float_max"
  proof -
    have "(2::real) ^ 1024 = 2 ^ 53 * 2 ^ 971" by (simp only: power_add [symmetric]) simp
    moreover have "((2::real) ^ 53 - 1) * 2 ^ 971 < 2 ^ 53 * 2 ^ 971"
      by (rule mult_strict_right_mono) simp_all
    ultimately show ?thesis by (simp add: float_max_def)
  qed
  have y: "real_of_int (2 ^ 53 - 1) * 2 ^ 971 = float_max"
    by (simp add: float_max_def)
  from lt show ?thesis
    unfolding cost_add.simps s round_double_of_int [OF n] b e Let_def r y
    by (simp only: if_False)
qed

section \<open>Evaluating the search on the examples\<close>

lemmas search_eval =
  find_plan_def create_action_lookup_def check_references_def path_to_plan_def
  expand_action_def path_cost_def triple_costs_def unique_def ActionImpossible_def float_max_def
  mk_action_def round_double_small round_double_1e16 round_double_1e16_plus_1

section \<open>Reference resolution never raises\<close>

lemma check_references_returns:
  "check_references ref state =
     Inr (case ref of
            VStr s \<Rightarrow> (case map_of state (drop 1 s) of Some v \<Rightarrow> v | None \<Rightarrow> ref)
          | _ \<Rightarrow> ref)"
proof (cases ref)
  case (VStr s)
  show ?thesis
  proof (cases "map_of state (drop 1 s)")
    case None
    then have "drop 1 s \<notin> set (map fst state)"
      by (simp add: map_of_eq_None_iff)
    with None VStr show ?thesis by (simp add: check_references_def)
  next
    case (Some v)
    then have "drop 1 s \<in> set (map fst state)"
      by (metis map_of_eq_None_iff option.distinct(1) set_map)
    with Some VStr show ?thesis by (simp add: check_references_def)
  qed
qed (simp_all add: check_references_def)

lemma check_references_total: "\<exists>v. check_references ref state = Inr v"
  by (simp add: check_references_returns)

text \<open>
  C5, as stated, fails: the code never looks at the first character. With the sigil
  \<open>@\<close> of the specification's example, the string \<open>xbase_color\<close> is no indirect
  reference, and it is resolved to the value of \<open>base_color\<close> all the same.
\<close>

theorem check_references_ignores_sigil:
  "\<not> indirect_reference CHR ''@'' (VStr ''xbase_color'') [(''base_color'', VStr ''red'')] \<and>
   check_references (VStr ''xbase_color'') [(''base_color'', VStr ''red'')] = Inr (VStr ''red'')"
  by (simp add: check_references_def)

text \<open>
  C5, amended. Reference resolution replaces the value with the context state's value
  for a key exactly when the value is a string whose remainder after its first
  character is a key of the context state, whatever that first character is (for the
  empty string the remainder is the empty string); every other value is returned
  unchanged, and no exception is raised.
\<close>

theorem check_references_drops_first:
  "((\<exists>s. ref = VStr s \<and> drop 1 s \<in> fst ` set state) \<longrightarrow>
      (\<exists>s v. ref = VStr s \<and> map_of state (drop 1 s) = Some v \<and>
             check_references ref state = Inr v)) \<and>
   (\<not> (\<exists>s. ref = VStr s \<and> drop 1 s \<in> fst ` set state) \<longrightarrow>
      check_references ref state = Inr ref)"
proof (cases ref)
  case (VStr s)
  show ?thesis
  proof (cases "map_of state (drop 1 s)")
    case None
    then have "drop 1 s \<notin> fst ` set state" by (simp add: map_of_eq_None_iff)
    with None VStr show ?thesis by (simp add: check_references_returns)
  next
    case (Some v)
    then have "drop 1 s \<in> fst ` set state"
      by (metis map_of_eq_None_iff option.distinct(1))
    with Some VStr show ?thesis by (simp add: check_references_returns)
  qed
qed (simp_all add: check_references_returns)

theorem check_references_drops_first_witness:
  "(\<exists>s. VStr ''@base_color'' = VStr s \<and>
        drop 1 s \<in> fst ` set [(''base_color'', VStr ''red'')]) \<and>
   check_references (VStr ''@base_color'') [(''base_color'', VStr ''red'')] =
     Inr (VStr ''red'') \<and>
   \<not> (\<exists>s. VStr ''base_color'' = VStr s \<and>
          drop 1 s \<in> fst ` set [(''base_color'', VStr ''red'')]) \<and>
   check_references (VStr ''base_color'') [(''base_color'', VStr ''red'')] =
     Inr (VStr ''base_color'')"
  using check_references_drops_first [of "VStr ''@base_color''" "[(''base_color'', VStr ''red'')]"]
        check_references_drops_first [of "VStr ''base_color''" "[(''base_color'', VStr ''red'')]"]
  by simp

section \<open>Goals that the start state already meets\<close>

text \<open>
  C4. When the first goal predicate, its value resolved against the start state, is a
  (key, value) pair of the start state, \<^verbatim>\<open>find_plan\<close> returns the empty plan. The
  catalog of actions is arbitrary, and so is the lookup the search is given: the action
  lookup has no part in the result.
\<close>

theorem find_plan_goal_already_met:
  assumes "check_references gv0 start_state = Inr gv"
    and "(gk, gv) \<in> set start_state"
  shows "find_plan (Suc n) actions start_state ((gk, gv0) # rest) = Some (Inr []) \<and>
         find_actions (Suc n) action_lookup ((gk, gv0) # rest) start_state = Some (Inr [])"
  using assms by (simp add: find_plan_def path_to_plan_def)

theorem find_plan_goal_already_met_witness:
  "check_references (VStr ''@base_color'')
     [(''base_color'', VStr ''red''), (''color'', VStr ''red'')] = Inr (VStr ''red'') \<and>
   (''color'', VStr ''red'') \<in> set [(''base_color'', VStr ''red''), (''color'', VStr ''red'')] \<and>
   find_plan (Suc 0) key_actions [(''base_color'', VStr ''red''), (''color'', VStr ''red'')]
      [(''color'', VStr ''@base_color''), (''key'', VStr ''open'')] = Some (Inr [])"
proof -
  have r: "check_references (VStr ''@base_color'')
             [(''base_color'', VStr ''red''), (''color'', VStr ''red'')] = Inr (VStr ''red'')"
    by (simp add: check_references_def)
  have m: "(''color'', VStr ''red'') \<in>
             set [(''base_color'', VStr ''red''), (''color'', VStr ''red'')]"
    by simp
  from find_plan_goal_already_met [OF r m] r m show ?thesis by blast
qed

section \<open>Only the first predicate of the goal is read\<close>

lemma find_actions_first_only:
  "(find_actions n lk (kv # rest) start = Some (Inr path)) =
     (find_actions n lk [kv] start = Some (Inr path))"
  "(find_actions n lk (kv # rest) start = None) = (find_actions n lk [kv] start = None)"
  "(\<exists>e. find_actions n lk (kv # rest) start = Some (Inl e)) =
     (\<exists>e. find_actions n lk [kv] start = Some (Inl e))"
  by (cases n; cases kv; simp add: Let_def split: sum.splits option.splits)+

lemma find_plan_returns_iff:
  "(find_plan n actions start t = Some (Inr plan)) =
     (\<exists>path. find_actions n (create_action_lookup actions) t start = Some (Inr path) \<and>
             plan = path_to_plan path)"
  by (auto simp: find_plan_def split: option.splits sum.splits)

lemma find_plan_none_iff:
  "(find_plan n actions start t = None) =
     (find_actions n (create_action_lookup actions) t start = None)"
  by (auto simp: find_plan_def split: option.splits sum.splits)

lemma find_plan_raises_iff:
  "(\<exists>e. find_plan n actions start t = Some (Inl e)) =
     (\<exists>e. find_actions n (create_action_lookup actions) t start = Some (Inl e))"
  by (auto simp: find_plan_def split: option.splits sum.splits)

text \<open>
  C9. For a non-empty target \<open>kv # rest\<close>, \<^verbatim>\<open>find_plan\<close> returns a plan exactly when
  it returns that plan for the target \<open>[kv]\<close> of the first predicate alone, with the
  same recursion budget; it raises exactly when the other raises, and has no answer
  exactly when the other has none. The predicates after the first only appear in the
  text of the exception that names the target.
\<close>

theorem find_plan_first_predicate_only:
  "(find_plan n actions start (kv # rest) = Some (Inr plan)) =
     (find_plan n actions start [kv] = Some (Inr plan)) \<and>
   (find_plan n actions start (kv # rest) = None) =
     (find_plan n actions start [kv] = None) \<and>
   (\<exists>e. find_plan n actions start (kv # rest) = Some (Inl e)) =
     (\<exists>e. find_plan n actions start [kv] = Some (Inl e))"
  unfolding find_plan_returns_iff find_plan_none_iff find_plan_raises_iff
  using find_actions_first_only [of n "create_action_lookup actions" kv rest start]
  by simp

section \<open>What the action lookup holds\<close>

text \<open>
  The bucket of a pair holds the actions in catalog order, each as often as its effects
  hold the pair: once, for the effects of a dict.
\<close>

lemma fold_append_bucket:
  "fold (\<lambda>kv lk. lk(kv := lk kv @ [a])) effs lk kv0 = lk kv0 @ replicate (count_list effs kv0) a"
  by (induction effs arbitrary: lk) (auto simp: replicate_append_same)

lemma fold_lookup_bucket:
  "fold (\<lambda>action lookup_actions.
           fold (\<lambda>kv lk. lk(kv := lk kv @ [action])) (effects action) lookup_actions)
        actions lk kv0 =
   lk kv0 @ concat (map (\<lambda>a. replicate (count_list (effects a) kv0) a) actions)"
  by (induction actions arbitrary: lk) (simp_all add: fold_append_bucket)

lemma create_action_lookup_bucket:
  "create_action_lookup actions kv =
     concat (map (\<lambda>a. replicate (count_list (effects a) kv) a) actions)"
  by (simp add: create_action_lookup_def fold_lookup_bucket)

lemma create_action_lookup_empty_iff:
  "create_action_lookup actions kv = [] \<longleftrightarrow> (\<forall>a\<in>set actions. kv \<notin> set (effects a))"
  by (auto simp: create_action_lookup_bucket count_list_0_iff)

lemma count_list_distinct:
  "distinct xs \<Longrightarrow> count_list xs x = (if x \<in> set xs then 1 else 0)"
  by (induction xs) auto

lemma create_action_lookup_filter:
  assumes "\<forall>a\<in>set actions. distinct (map fst (effects a))"
  shows "create_action_lookup actions kv = filter (\<lambda>a. kv \<in> set (effects a)) actions"
proof -
  have "concat (map (\<lambda>a. replicate (count_list (effects a) kv) a) acts) =
        filter (\<lambda>a. kv \<in> set (effects a)) acts"
    if "\<forall>a\<in>set acts. distinct (effects a)" for acts
    using that by (induction acts) (auto simp: count_list_distinct)
  moreover from assms have "\<forall>a\<in>set actions. distinct (effects a)"
    by (simp add: distinct_map)
  ultimately show ?thesis
    by (simp only: create_action_lookup_bucket)
qed

section \<open>Unreachable goals\<close>

text \<open>
  C1, on the code. When the resolved first goal predicate is not in the start state and
  no action produces it, under its value or under the wildcard, the search returns at
  the sentinel before it reaches the check of the cost, and \<^verbatim>\<open>find_plan\<close> returns the
  plan whose only key is the impossible action: no exception is raised. The witness
  is scenario 3 of the specification, with the catalog of scenario 1.
\<close>

theorem find_plan_returns_sentinel_plan:
  assumes "check_references gv0 start_state = Inr gv"
    and "(gk, gv) \<notin> set start_state"
    and "\<forall>a\<in>set actions. (gk, gv) \<notin> set (effects a) \<and> (gk, VEllipsis) \<notin> set (effects a)"
  shows "find_plan (Suc n) actions start_state ((gk, gv0) # rest) =
           Some (Inr [(ActionImpossible, [])])"
proof -
  from assms(3) have "create_action_lookup actions (gk, gv) = []"
    and "create_action_lookup actions (gk, VEllipsis) = []"
    by (simp_all add: create_action_lookup_empty_iff)
  with assms(1,2) show ?thesis
    by (simp add: find_plan_def path_to_plan_def)
qed

theorem find_plan_returns_sentinel_plan_witness:
  "find_plan (Suc 0) axe_actions [] [(''teleported'', VNum 1)] =
     Some (Inr [(ActionImpossible, [])])"
proof -
  have h1: "check_references (VNum 1) [] = Inr (VNum 1)"
    by (simp add: check_references_def)
  have h2: "(''teleported'', VNum 1) \<notin> set []"
    by simp
  have h3: "\<forall>a\<in>set axe_actions. (''teleported'', VNum 1) \<notin> set (effects a) \<and>
              (''teleported'', VEllipsis) \<notin> set (effects a)"
    by (simp add: axe_actions_def mk_action_def)
  from find_plan_returns_sentinel_plan [OF h1 h2 h3] show ?thesis .
qed

text \<open>
  C3, evaluated on the travel catalog. \<open>Drive\<close> needs a car, \<open>BuyCar\<close> needs money
  and nothing produces money: the sub-search for the car raises, and the exception
  ends the whole search although \<open>Walk\<close> reaches the goal. Without \<open>BuyCar\<close> the
  sub-search for the car returns the sentinel and \<open>Walk\<close> is selected, and \<open>Walk\<close>
  alone gives the same plan.
\<close>

theorem find_plan_nested_unreachable_raises:
  "find_plan (Suc (Suc (Suc n))) travel_actions [] [(''arrived'', VNum 1)] =
     Some (Inl (GoalUnreachable [(''has_car'', VNum 1)])) \<and>
   find_plan (Suc (Suc n)) (take 2 travel_actions) [] [(''arrived'', VNum 1)] =
     Some (Inr [(travel_actions ! 1, [(''arrived'', VNum 1)])]) \<and>
   find_plan (Suc n) [travel_actions ! 1] [] [(''arrived'', VNum 1)] =
     Some (Inr [(travel_actions ! 1, [(''arrived'', VNum 1)])])"
  by (simp add: travel_actions_def search_eval)

section \<open>Empty goals\<close>

text \<open>
  C10. With an empty target state, \<^verbatim>\<open>find_plan\<close> raises the out-of-range indexing
  error of \<^verbatim>\<open>list(target_state.items())[0]\<close>, whatever the start state and the
  actions are: it returns no plan and does not raise the unreachable-goal exception.
\<close>

theorem find_plan_empty_target:
  "find_plan (Suc n) actions start_state [] = Some (Inl IndexError)"
  by (simp add: find_plan_def)

section \<open>First occurrences: \<^verbatim>\<open>__unique\<close> and the plan assembler\<close>

lemma set_unique_from: "set (unique_from seen xs) = set xs - seen"
  by (induction xs arbitrary: seen) auto

lemma distinct_unique_from: "distinct (unique_from seen xs)"
  by (induction xs arbitrary: seen) (auto simp: set_unique_from)

lemma unique_from_snoc:
  "unique_from seen (xs @ [x]) =
     (if x \<in> seen \<union> set xs then unique_from seen xs else unique_from seen xs @ [x])"
  by (induction xs arbitrary: seen) auto

lemma set_unique: "set (unique xs) = set xs"
  by (simp add: unique_def set_unique_from)

lemma distinct_unique: "distinct (unique xs)"
  by (simp add: unique_def distinct_unique_from)

lemma unique_snoc:
  "unique (xs @ [x]) = (if x \<in> set xs then unique xs else unique xs @ [x])"
  by (simp add: unique_def unique_from_snoc)

lemma unique_first_occurrences:
  "unique xs = map (\<lambda>i. xs ! i) (filter (\<lambda>i. xs ! i \<notin> set (take i xs)) [0..<length xs])"
proof (induction xs rule: rev_induct)
  case Nil
  show ?case by (simp add: unique_def)
next
  case (snoc x xs)
  let ?P = "\<lambda>ys i. ys ! i \<notin> set (take i ys)"
  have f: "filter (?P (xs @ [x])) [0..<length xs] = filter (?P xs) [0..<length xs]"
    by (rule filter_cong) (auto simp: nth_append)
  have m: "map (\<lambda>i. (xs @ [x]) ! i) (filter (?P xs) [0..<length xs]) =
           map (\<lambda>i. xs ! i) (filter (?P xs) [0..<length xs])"
    by (rule map_cong) (auto simp: nth_append)
  have l: "?P (xs @ [x]) (length xs) = (x \<notin> set xs)"
    by simp
  have "map (\<lambda>i. (xs @ [x]) ! i) (filter (?P (xs @ [x])) [0..<length (xs @ [x])]) =
        map (\<lambda>i. (xs @ [x]) ! i)
          (filter (?P (xs @ [x])) [0..<length xs] @ filter (?P (xs @ [x])) [length xs])"
    by (simp del: take_append nth_append_length)
  also have "\<dots> = map (\<lambda>i. xs ! i) (filter (?P xs) [0..<length xs]) @
                   (if x \<in> set xs then [] else [x])"
    unfolding f by (simp only: map_append m filter.simps l) simp
  also have "\<dots> = unique (xs @ [x])"
    using snoc.IH by (simp add: unique_snoc)
  finally show ?case by simp
qed

lemma unique_from_map_unique_from:
  "f ` S \<subseteq> T \<Longrightarrow> unique_from T (map f (unique_from S xs)) = unique_from T (map f xs)"
proof (induction xs arbitrary: S T)
  case Nil
  show ?case by simp
next
  case (Cons x xs)
  show ?case
  proof (cases "x \<in> S")
    case True
    with Cons.prems have "f x \<in> T" by auto
    with True Cons show ?thesis by simp
  next
    case False
    show ?thesis
    proof (cases "f x \<in> T")
      case True
      with Cons.prems have "f ` insert x S \<subseteq> T" by auto
      from Cons.IH [OF this] True False show ?thesis by simp
    next
      case fx: False
      from Cons.prems have "f ` insert x S \<subseteq> insert (f x) T" by auto
      from Cons.IH [OF this] fx False show ?thesis by simp
    qed
  qed
qed

lemma unique_map_unique: "unique (map f (unique xs)) = unique (map f xs)"
  by (simp add: unique_def unique_from_map_unique_from)

lemma unique_idem: "unique (unique xs) = unique xs"
  using unique_map_unique [of "\<lambda>x. x" xs] by simp

lemma plan_set_keys:
  "map fst (plan_set a e plan) =
     (if a \<in> set (map fst plan) then map fst plan else map fst plan @ [a])"
  by (induction a e plan rule: plan_set.induct) (auto simp: image_iff)

lemma map_of_plan_set: "map_of (plan_set a e plan) = (map_of plan)(a \<mapsto> e)"
  by (induction a e plan rule: plan_set.induct) (auto simp: fun_eq_iff)

lemma plan_set_new: "a \<notin> set (map fst plan) \<Longrightarrow> plan_set a e plan = plan @ [(a, e)]"
  by (induction a e plan rule: plan_set.induct) auto

lemma path_to_plan_snoc:
  "path_to_plan (path @ [(a, e, c)]) = plan_set a e (path_to_plan path)"
  by (simp add: path_to_plan_def)

lemma path_to_plan_keys: "map fst (path_to_plan path) = unique (map fst path)"
proof (induction path rule: rev_induct)
  case Nil
  show ?case by (simp add: path_to_plan_def unique_def)
next
  case (snoc t path)
  obtain a e c where t: "t = (a, e, c)" by (cases t)
  have "set (map fst (path_to_plan path)) = set (map fst path)"
    using snoc.IH by (simp only: set_unique)
  with snoc.IH show ?case
    by (simp add: t path_to_plan_snoc plan_set_keys unique_snoc)
qed

lemma path_to_plan_values:
  "map_of (path_to_plan path) = map_of (rev (map (\<lambda>(a, e, c). (a, e)) path))"
proof (induction path rule: rev_induct)
  case Nil
  show ?case by (simp add: path_to_plan_def)
next
  case (snoc t path)
  obtain a e c where t: "t = (a, e, c)" by (cases t)
  from snoc.IH show ?case
    by (simp add: t path_to_plan_snoc map_of_plan_set)
qed

lemma path_to_plan_distinct_actions:
  "distinct (map fst path) \<Longrightarrow> path_to_plan path = map (\<lambda>(a, e, c). (a, e)) path"
proof (induction path rule: rev_induct)
  case Nil
  show ?case by (simp add: path_to_plan_def)
next
  case (snoc t path)
  obtain a e c where t: "t = (a, e, c)" by (cases t)
  from snoc.prems have d: "distinct (map fst path)" and n: "a \<notin> fst ` set path"
    by (auto simp: t)
  have "a \<notin> set (map fst (path_to_plan path))"
    using n by (simp only: path_to_plan_keys set_unique) simp
  with snoc.IH [OF d] show ?case
    by (simp add: t path_to_plan_snoc plan_set_new)
qed

lemma unique_map_first_occurrences:
  "unique (map f xs) =
     map (\<lambda>i. f (xs ! i)) (filter (\<lambda>i. f (xs ! i) \<notin> f ` set (take i xs)) [0..<length xs])"
proof -
  have "unique (map f xs) =
     map (\<lambda>i. map f xs ! i)
       (filter (\<lambda>i. map f xs ! i \<notin> set (take i (map f xs))) [0..<length (map f xs)])"
    by (rule unique_first_occurrences)
  also have "filter (\<lambda>i. map f xs ! i \<notin> set (take i (map f xs))) [0..<length (map f xs)]
        = filter (\<lambda>i. f (xs ! i) \<notin> f ` set (take i xs)) [0..<length xs]"
    by (rule filter_cong) (auto simp: take_map)
  also have "map (\<lambda>i. map f xs ! i) (filter (\<lambda>i. f (xs ! i) \<notin> f ` set (take i xs)) [0..<length xs])
       = map (\<lambda>i. f (xs ! i)) (filter (\<lambda>i. f (xs ! i) \<notin> f ` set (take i xs)) [0..<length xs])"
    by (rule map_cong) auto
  finally show ?thesis .
qed

text \<open>
  C8. For every path, the plan holds every action once, in the order of the actions'
  first occurrences in the path, and maps each action to one state: the state of its
  last triple in the path, since a later \<^verbatim>\<open>plan[action] = effects\<close> overwrites the
  value and leaves the key where it is.
\<close>

theorem path_to_plan_first_position:
  "distinct (map fst (path_to_plan path)) \<and>
   map fst (path_to_plan path) =
     map (\<lambda>i. fst (path ! i))
       (filter (\<lambda>i. fst (path ! i) \<notin> fst ` set (take i path)) [0..<length path]) \<and>
   map_of (path_to_plan path) = map_of (rev (map (\<lambda>(a, e, c). (a, e)) path))"
proof -
  have d: "distinct (map fst (path_to_plan path))"
    by (simp only: path_to_plan_keys distinct_unique)
  from d path_to_plan_keys [of path, unfolded unique_map_first_occurrences]
    path_to_plan_values [of path]
  show ?thesis by blast
qed

section \<open>The loops of the search\<close>

subsection \<open>Costs\<close>

lemma path_cost_fst:
  "path_cost path = fold (\<lambda>t total. cost_add total (cost (fst t))) path (Fin 0)"
proof -
  have "fold (\<lambda>(a, _, _) total. cost_add total (cost a)) path x =
        fold (\<lambda>t total. cost_add total (cost (fst t))) path x" for x
    by (induction path arbitrary: x) auto
  then show ?thesis by (simp only: path_cost_def)
qed


lemma bounded_fst: "bounded path = (\<forall>t\<in>set path. cost (fst t) \<noteq> Inf)"
  by (auto simp: bounded_def list_all_iff)


lemma fold_cost_Inf:
  "fold (\<lambda>t total. cost_add total (cost (fst t))) path Inf = Inf"
  by (induction path) auto

lemma fold_cost_bounded:
  "fold (\<lambda>t total. cost_add total (cost (fst t))) path c \<noteq> Inf \<Longrightarrow> bounded path"
proof (induction path arbitrary: c)
  case Nil
  show ?case by (simp add: bounded_fst)
next
  case (Cons t path)
  from Cons.prems have
    f: "fold (\<lambda>t total. cost_add total (cost (fst t))) path (cost_add c (cost (fst t))) \<noteq> Inf"
    by simp
  have "cost (fst t) \<noteq> Inf"
  proof
    assume "cost (fst t) = Inf"
    then have "cost_add c (cost (fst t)) = Inf" by (cases c) simp_all
    with f show False by (simp add: fold_cost_Inf)
  qed
  with Cons.IH [OF f] show ?case by (simp add: bounded_fst)
qed

lemma below_max_bounded: "\<not> cost_less (Fin m) (path_cost path) \<Longrightarrow> bounded path"
proof -
  assume "\<not> cost_less (Fin m) (path_cost path)"
  then have "path_cost path \<noteq> Inf" by (cases "path_cost path") auto
  then show ?thesis unfolding path_cost_fst by (rule fold_cost_bounded)
qed

lemma bounded_append: "bounded (xs @ ys) = (bounded xs \<and> bounded ys)"
  by (simp add: bounded_def)





subsection \<open>Shape of the loops\<close>

lemma explore_preconditions_Cons_returns:
  assumes "explore_preconditions solve eo ((pk, pv) # rest) acc = Some (Inr res)"
  obtains pv' sub where "check_references pv eo = Inr pv'"
    and "solve [(pk, pv')] = Some (Inr sub)"
    and "explore_preconditions solve eo rest (acc @ sub) = Some (Inr res)"
  using assms by (auto split: sum.splits option.splits)

lemma expand_action_returns:
  assumes "expand_action solve eo a = Some (Inr res)"
  obtains pre where "explore_preconditions solve eo (preconditions a) [] = Some (Inr pre)"
    and "res = pre @ [(a, eo, cost a)]"
  using assms by (auto simp: expand_action_def split: sum.splits option.splits)

lemma explore_actions_Cons_returns:
  assumes "explore_actions solve eo (a # rest) chosen = Some (Inr res)"
  obtains ap where "expand_action solve eo a = Some (Inr ap)"
    and "explore_actions solve eo rest
           (if chosen = [] then ap
            else if cost_less (path_cost ap) (path_cost chosen) then ap else chosen) =
         Some (Inr res)"
  using assms by (auto split: sum.splits option.splits)


lemma explore_actions_cases:
  "explore_actions solve eo acts chosen = Some (Inr res) \<Longrightarrow>
   res = chosen \<or> (\<exists>a\<in>set acts. expand_action solve eo a = Some (Inr res))"
proof (induction acts arbitrary: chosen)
  case Nil
  then show ?case by simp
next
  case (Cons a acts)
  from Cons.prems obtain ap where
    e: "expand_action solve eo a = Some (Inr ap)"
    and r: "explore_actions solve eo acts
           (if chosen = [] then ap
            else if cost_less (path_cost ap) (path_cost chosen) then ap else chosen) =
         Some (Inr res)"
    by (rule explore_actions_Cons_returns)
  from Cons.IH [OF r] e show ?case by (auto split: if_splits)
qed

lemma explore_actions_from_empty:
  assumes "acts \<noteq> []"
    and "explore_actions solve eo acts [] = Some (Inr res)"
  shows "\<exists>a\<in>set acts. expand_action solve eo a = Some (Inr res)"
proof -
  from assms(1) obtain a rest where acts: "acts = a # rest" by (cases acts) auto
  from assms(2) obtain ap where
    e: "expand_action solve eo a = Some (Inr ap)"
    and r: "explore_actions solve eo rest ap = Some (Inr res)"
    unfolding acts by (rule explore_actions_Cons_returns) simp
  from explore_actions_cases [OF r] e show ?thesis by (auto simp: acts)
qed

subsection \<open>Selection of the cheapest candidate\<close>



subsection \<open>Cost components\<close>

lemma costs_agree_append: "costs_agree (xs @ ys) = (costs_agree xs \<and> costs_agree ys)"
  by (simp add: costs_agree_def)





text \<open>
  C6. When the search has assembled and chosen the path \<open>chosen\<close>, it returns
  \<open>unique chosen\<close>: the triples at the positions of \<open>chosen\<close> whose triple did not
  occur before, in their order, so no triple twice. The plan made of it holds every
  action once, in the order of the actions' first occurrences in \<open>chosen\<close>.
\<close>

theorem search_returns_first_occurrences:
  assumes "check_references gv0 start = Inr gv"
    and "(gk, gv) \<notin> set start"
    and "probable = (if lk (gk, gv) \<noteq> [] then lk (gk, gv) else lk (gk, VEllipsis))"
    and "probable \<noteq> []"
    and "explore_actions (\<lambda>goal. find_actions n lk goal start) [(gk, gv)] probable [] =
           Some (Inr chosen)"
    and "\<not> cost_less (Fin float_max) (path_cost chosen)"
  shows "find_actions (Suc n) lk ((gk, gv0) # rest) start = Some (Inr (unique chosen)) \<and>
         distinct (unique chosen) \<and>
         unique chosen =
           map (\<lambda>i. chosen ! i)
             (filter (\<lambda>i. chosen ! i \<notin> set (take i chosen)) [0..<length chosen]) \<and>
         distinct (map fst (path_to_plan (unique chosen))) \<and>
         map fst (path_to_plan (unique chosen)) =
           map (\<lambda>i. fst (chosen ! i))
             (filter (\<lambda>i. fst (chosen ! i) \<notin> fst ` set (take i chosen)) [0..<length chosen])"
proof -
  have r: "find_actions (Suc n) lk ((gk, gv0) # rest) start = Some (Inr (unique chosen))"
    using assms by (simp add: Let_def)
  have k: "map fst (path_to_plan (unique chosen)) = unique (map fst chosen)"
    by (simp only: path_to_plan_keys unique_map_unique)
  have d: "distinct (map fst (path_to_plan (unique chosen)))"
    by (simp only: k distinct_unique)
  from r distinct_unique [of chosen] unique_first_occurrences [of chosen] d
    k [unfolded unique_map_first_occurrences]
  show ?thesis by blast
qed

theorem search_returns_first_occurrences_witness:
  "find_actions (Suc (Suc (Suc 0))) (create_action_lookup build_actions) [(''house'', VNum 1)] [] =
     Some (Inr [(build_actions ! 3, [(''wood'', VNum 1)], Fin 1),
                (build_actions ! 1, [(''walls'', VNum 1)], Fin 1),
                (build_actions ! 2, [(''roof'', VNum 1)], Fin 1),
                (build_actions ! 0, [(''house'', VNum 1)], Fin 1)]) \<and>
   map fst (path_to_plan (unique
       [(build_actions ! 3, [(''wood'', VNum 1)], Fin 1),
        (build_actions ! 1, [(''walls'', VNum 1)], Fin 1),
        (build_actions ! 3, [(''wood'', VNum 1)], Fin 1),
        (build_actions ! 2, [(''roof'', VNum 1)], Fin 1),
        (build_actions ! 0, [(''house'', VNum 1)], Fin 1)])) =
     [build_actions ! 3, build_actions ! 1, build_actions ! 2, build_actions ! 0]"
proof -
  let ?lk = "create_action_lookup build_actions"
  let ?solve = "\<lambda>goal. find_actions (Suc (Suc 0)) ?lk goal []"
  let ?chosen = "[(build_actions ! 3, [(''wood'', VNum 1)], Fin 1),
        (build_actions ! 1, [(''walls'', VNum 1)], Fin 1),
        (build_actions ! 3, [(''wood'', VNum 1)], Fin 1),
        (build_actions ! 2, [(''roof'', VNum 1)], Fin 1),
        (build_actions ! 0, [(''house'', VNum 1)], Fin 1)]"
  have h1: "check_references (VNum 1) [] = Inr (VNum 1)"
    by (simp add: check_references_def)
  have h2: "(''house'', VNum 1) \<notin> set []"
    by simp
  have h3: "[build_actions ! 0] =
     (if ?lk (''house'', VNum 1) \<noteq> [] then ?lk (''house'', VNum 1) else ?lk (''house'', VEllipsis))"
    by (simp add: build_actions_def search_eval)
  have h4: "[build_actions ! 0] \<noteq> []"
    by simp
  have h5: "explore_actions ?solve [(''house'', VNum 1)] [build_actions ! 0] [] = Some (Inr ?chosen)"
    by (simp add: build_actions_def search_eval)
  have h6: "\<not> cost_less (Fin float_max) (path_cost ?chosen)"
    by (simp add: build_actions_def search_eval)
  from search_returns_first_occurrences [OF h1 h2 h3 h4 h5 h6, of "[]"] show ?thesis
    by (simp add: build_actions_def mk_action_def unique_def)
qed

section \<open>Topological validity\<close>

subsection \<open>Valid order\<close>

lemma outcomes_steps: "outcomes path = snd ` set (steps path)"
  by (auto simp: outcomes_def steps_def image_iff split: prod.splits) force+

lemma outcomes_append: "outcomes (xs @ ys) = outcomes xs \<union> outcomes ys"
  by (simp add: outcomes_def)

lemma steps_append: "steps (xs @ ys) = steps xs @ steps ys"
  by (simp add: steps_def)

lemma precondition_met_mono:
  "E \<subseteq> E' \<Longrightarrow> precondition_met start E e p \<Longrightarrow> precondition_met start E' e p"
  by (auto simp: precondition_met_def split: sum.splits)

lemma step_ready_mono:
  "E \<subseteq> E' \<Longrightarrow> step_ready start E s \<Longrightarrow> step_ready start E' s"
  by (auto simp: step_ready_def list_all_iff intro: precondition_met_mono)

lemma ordered_after_mono:
  "E \<subseteq> E' \<Longrightarrow> ordered_after start E plan \<Longrightarrow> ordered_after start E' plan"
proof (induction plan arbitrary: E E')
  case Nil
  show ?case by simp
next
  case (Cons s plan)
  from Cons.prems have "step_ready start E' s"
    by (auto intro: step_ready_mono)
  moreover from Cons.prems have "ordered_after start (insert (snd s) E') plan"
    by (auto intro: Cons.IH [of "insert (snd s) E"])
  ultimately show ?case by simp
qed

lemma ordered_after_append:
  "ordered_after start E (xs @ ys) =
     (ordered_after start E xs \<and> ordered_after start (E \<union> snd ` set xs) ys)"
  by (induction xs arbitrary: E) (auto simp: insert_commute Un_commute)

lemma ordered_after_unique_from:
  assumes "(\<lambda>(a, e, c). e) ` seen \<subseteq> E"
    and "ordered_after start E (steps path)"
  shows "ordered_after start E (steps (unique_from seen path))"
  using assms
proof (induction path arbitrary: seen E)
  case Nil
  show ?case by (simp add: steps_def)
next
  case (Cons t path)
  obtain a e c where t: "t = (a, e, c)" by (cases t)
  from Cons.prems(2) have r: "step_ready start E (a, e)"
    and o: "ordered_after start (insert e E) (steps path)"
    by (simp_all add: t steps_def)
  show ?case
  proof (cases "t \<in> seen")
    case True
    with Cons.prems(1) have "e \<in> E" by (auto simp: t)
    then have "insert e E = E" by auto
    with o have "ordered_after start E (steps path)" by simp
    from Cons.IH [OF Cons.prems(1) this] True show ?thesis by simp
  next
    case False
    from Cons.prems(1) have "(\<lambda>(a, e, c). e) ` insert t seen \<subseteq> insert e E"
      by (auto simp: t)
    from Cons.IH [OF this o] r False show ?thesis
      by (simp add: t steps_def)
  qed
qed

lemma ordered_after_unique:
  "ordered_after start {} (steps path) \<Longrightarrow> ordered_after start {} (steps (unique path))"
  unfolding unique_def by (rule ordered_after_unique_from) simp

lemma outcomes_unique: "outcomes (unique path) = outcomes path"
  by (simp add: outcomes_def set_unique)

lemma bounded_unique: "bounded (unique path) = bounded path"
  by (simp add: bounded_fst set_unique)

subsection \<open>The search keeps the order valid\<close>

lemma explore_preconditions_ok:
  assumes solve_ok: "\<And>goal p. solve goal = Some (Inr p) \<Longrightarrow> sub_result_ok start goal p"
    and "explore_preconditions solve eo pres acc = Some (Inr res)"
  shows "\<exists>added. res = acc @ added \<and> ordered_after start {} (steps added) \<and>
           (bounded added \<longrightarrow> list_all (precondition_met start (outcomes added) eo) pres)"
  using assms(2)
proof (induction pres arbitrary: acc)
  case Nil
  then show ?case by (simp add: steps_def)
next
  case (Cons p pres)
  obtain pk pv where p: "p = (pk, pv)" by (cases p)
  from Cons.prems obtain pv' sub where
    c: "check_references pv eo = Inr pv'"
    and s: "solve [(pk, pv')] = Some (Inr sub)"
    and r: "explore_preconditions solve eo pres (acc @ sub) = Some (Inr res)"
    unfolding p by (rule explore_preconditions_Cons_returns)
  from Cons.IH [OF r] obtain added where
    res: "res = (acc @ sub) @ added"
    and ord: "ordered_after start {} (steps added)"
    and met: "bounded added \<longrightarrow> list_all (precondition_met start (outcomes added) eo) pres"
    by blast
  from solve_ok [OF s] have
    sub_ord: "ordered_after start {} (steps sub)"
    and sub_est: "bounded sub \<longrightarrow>
        (case check_references pv' start of Inl _ \<Rightarrow> True
         | Inr g \<Rightarrow> (pk, g) \<in> set start \<or> [(pk, g)] \<in> outcomes sub)"
    by (simp_all add: sub_result_ok_def)
  obtain g where g: "check_references pv' start = Inr g"
    using check_references_total by blast
  have "ordered_after start (outcomes sub) (steps added)"
    by (rule ordered_after_mono [OF _ ord]) simp
  with sub_ord have 1: "ordered_after start {} (steps (sub @ added))"
    by (simp add: steps_append ordered_after_append outcomes_steps)
  have 2: "list_all (precondition_met start (outcomes (sub @ added)) eo) (p # pres)"
    if b: "bounded (sub @ added)"
  proof -
    from b sub_est g have "(pk, g) \<in> set start \<or> [(pk, g)] \<in> outcomes sub"
      by (simp add: bounded_append)
    then have "precondition_met start (outcomes (sub @ added)) eo p"
      by (auto simp: p precondition_met_def c g outcomes_append)
    moreover from b met have "list_all (precondition_met start (outcomes added) eo) pres"
      by (simp add: bounded_append)
    then have "list_all (precondition_met start (outcomes (sub @ added)) eo) pres"
      by (auto simp: list_all_iff outcomes_append
               intro: precondition_met_mono [of "outcomes added"])
    ultimately show ?thesis by simp
  qed
  from res 1 2 show ?case by auto
qed

lemma expand_action_ok:
  assumes "\<And>goal p. solve goal = Some (Inr p) \<Longrightarrow> sub_result_ok start goal p"
    and "expand_action solve eo a = Some (Inr res)"
  shows "candidate_ok start eo res"
proof -
  from assms(2) obtain pre where
    p: "explore_preconditions solve eo (preconditions a) [] = Some (Inr pre)"
    and r: "res = pre @ [(a, eo, cost a)]"
    by (rule expand_action_returns)
  from explore_preconditions_ok [OF assms(1) p] have
    ord: "ordered_after start {} (steps pre)"
    and met: "bounded pre \<longrightarrow> list_all (precondition_met start (outcomes pre) eo) (preconditions a)"
    by auto
  have "ordered_after start {} (steps res)" if "bounded res"
  proof -
    from that met have "step_ready start (outcomes pre) (a, eo)"
      by (simp add: r bounded_append step_ready_def)
    with ord show ?thesis
      by (simp add: r steps_append ordered_after_append outcomes_steps) (simp add: steps_def)
  qed
  then show ?thesis
    by (simp add: candidate_ok_def r outcomes_def)
qed

lemma find_actions_ok:
  "find_actions n lk goal start = Some (Inr p) \<Longrightarrow> sub_result_ok start goal p"
proof (induction n arbitrary: goal p)
  case 0
  then show ?case by simp
next
  case (Suc n)
  let ?solve = "\<lambda>goal. find_actions n lk goal start"
  from Suc.prems obtain gk gv0 rest where goal: "goal = (gk, gv0) # rest"
    by (cases goal) auto
  obtain gv where gv: "check_references gv0 start = Inr gv"
    using check_references_total by blast
  let ?probable = "if lk (gk, gv) \<noteq> [] then lk (gk, gv) else lk (gk, VEllipsis)"
  consider (met) "(gk, gv) \<in> set start" "p = []"
    | (none) "p = [(ActionImpossible, [], Inf)]"
    | (chosen) chosen where "?probable \<noteq> []"
        "explore_actions ?solve [(gk, gv)] ?probable [] = Some (Inr chosen)"
        "\<not> cost_less (Fin float_max) (path_cost chosen)"
        "p = unique chosen"
    using Suc.prems unfolding goal
    by (simp add: gv Let_def split: if_splits option.splits sum.splits)
  then show ?case
  proof cases
    case met
    then show ?thesis by (simp add: sub_result_ok_def goal gv steps_def)
  next
    case none
    then show ?thesis
      by (simp add: sub_result_ok_def goal gv steps_def step_ready_def bounded_def
          ActionImpossible_def)
  next
    case chosen
    from explore_actions_from_empty [OF chosen(1,2)] obtain a where
      "expand_action ?solve [(gk, gv)] a = Some (Inr chosen)" by blast
    then have "candidate_ok start [(gk, gv)] chosen"
      by (rule expand_action_ok [rotated]) (rule Suc.IH)
    moreover from chosen(3) have "bounded chosen" by (rule below_max_bounded)
    ultimately have "ordered_after start {} (steps chosen)" "[(gk, gv)] \<in> outcomes chosen"
      by (simp_all add: candidate_ok_def)
    then show ?thesis
      by (simp add: sub_result_ok_def goal gv chosen(4) ordered_after_unique outcomes_unique)
  qed
qed

text \<open>
  C7, as stated, fails. In the service catalog the search uses \<open>Set\<close> twice, for
  \<open>x = 1\<close> after \<open>Y1\<close> and for \<open>x = 2\<close> after \<open>Y2\<close>. The plan has one key per
  action: \<open>Set\<close> stays at its first place with its last outcome \<open>x = 2\<close>, before
  \<open>Y2\<close>, the action selected for the precondition of that outcome.
\<close>

theorem plan_of_repeated_action_not_valid:
  "find_plan (Suc (Suc (Suc (Suc (Suc 0))))) service_actions [] [(''g'', VNum 1)] =
     Some (Inr [(service_actions ! 4, [(''y'', VNum 1)]),
                (service_actions ! 3, [(''x'', VNum 2)]),
                (service_actions ! 1, [(''p'', VNum 1)]),
                (service_actions ! 5, [(''y'', VNum 2)]),
                (service_actions ! 2, [(''q'', VNum 1)]),
                (service_actions ! 0, [(''g'', VNum 1)])]) \<and>
   \<not> plan_valid []
       [(service_actions ! 4, [(''y'', VNum 1)]),
        (service_actions ! 3, [(''x'', VNum 2)]),
        (service_actions ! 1, [(''p'', VNum 1)]),
        (service_actions ! 5, [(''y'', VNum 2)]),
        (service_actions ! 2, [(''q'', VNum 1)]),
        (service_actions ! 0, [(''g'', VNum 1)])]"
  by (simp add: service_actions_def search_eval plan_valid_def step_ready_def
      precondition_met_def)

text \<open>
  C7, amended. Every path the search returns is in valid order: each step comes after
  the steps selected for the preconditions of its action that the start state does not
  hold. When no action occurs in two triples of that path, the plan \<^verbatim>\<open>find_plan\<close>
  returns has the steps of the path, and is topologically valid.
\<close>

theorem plan_valid_when_actions_distinct:
  assumes "find_actions n (create_action_lookup actions) target start = Some (Inr path)"
  shows "ordered_after start {} (steps path) \<and>
         (distinct (map fst path) \<longrightarrow>
            find_plan n actions start target = Some (Inr (steps path)) \<and>
            plan_valid start (steps path))"
proof -
  from assms have "sub_result_ok start target path" by (rule find_actions_ok)
  then have o: "ordered_after start {} (steps path)" by (simp add: sub_result_ok_def)
  have "path_to_plan path = steps path" if "distinct (map fst path)"
    using that by (simp add: path_to_plan_distinct_actions steps_def)
  with o assms show ?thesis by (simp add: find_plan_def plan_valid_def)
qed

theorem plan_valid_when_actions_distinct_witness:
  "find_plan (Suc (Suc 0)) axe_actions [] [(''wood_chopped'', VNum 1)] =
     Some (Inr [(axe_actions ! 0, [(''has_axe'', VNum 1)]),
                (axe_actions ! 1, [(''wood_chopped'', VNum 1)])]) \<and>
   plan_valid [] [(axe_actions ! 0, [(''has_axe'', VNum 1)]),
                  (axe_actions ! 1, [(''wood_chopped'', VNum 1)])]"
proof -
  let ?path = "[(axe_actions ! 0, [(''has_axe'', VNum 1)], Fin 1),
                (axe_actions ! 1, [(''wood_chopped'', VNum 1)], Fin 2)]"
  have h1: "find_actions (Suc (Suc 0)) (create_action_lookup axe_actions)
              [(''wood_chopped'', VNum 1)] [] = Some (Inr ?path)"
    by (simp add: axe_actions_def search_eval)
  have h2: "distinct (map fst ?path)"
    by (simp add: axe_actions_def mk_action_def)
  from plan_valid_when_actions_distinct [OF h1] h2 show ?thesis
    by (simp add: steps_def)
qed

section \<open>A larger recursion budget keeps the answer\<close>

text \<open>
  An answer found within some depth of recursion is the answer for every larger
  depth: the budget only decides whether there is an answer, never which.
\<close>

lemma explore_preconditions_more_budget:
  assumes "\<And>goal r. solve goal = Some r \<Longrightarrow> solve' goal = Some r"
    and "explore_preconditions solve eo pres acc = Some r"
  shows "explore_preconditions solve' eo pres acc = Some r"
  using assms(2)
proof (induction pres arbitrary: acc)
  case Nil
  then show ?case by simp
next
  case (Cons p pres)
  obtain pk pv where p: "p = (pk, pv)" by (cases p)
  show ?case
  proof (cases "check_references pv eo")
    case (Inl e)
    with Cons.prems show ?thesis by (simp add: p)
  next
    case (Inr pv')
    with Cons.prems obtain s where s: "solve [(pk, pv')] = Some s"
      by (cases "solve [(pk, pv')]") (auto simp: p)
    from assms(1) [OF s] have s': "solve' [(pk, pv')] = Some s" .
    show ?thesis
    proof (cases s)
      case (Inl e)
      with Cons.prems Inr s s' show ?thesis by (auto simp: p)
    next
      case sub: (Inr sub)
      with Cons.prems Inr s have "explore_preconditions solve eo pres (acc @ sub) = Some r"
        by (simp add: p)
      from Cons.IH [OF this] Inr s' sub show ?thesis by (simp add: p)
    qed
  qed
qed

lemma expand_action_more_budget:
  assumes "\<And>goal r. solve goal = Some r \<Longrightarrow> solve' goal = Some r"
    and "expand_action solve eo a = Some r"
  shows "expand_action solve' eo a = Some r"
proof -
  from assms(2) obtain q where
    q: "explore_preconditions solve eo (preconditions a) [] = Some q"
    by (cases "explore_preconditions solve eo (preconditions a) []")
       (auto simp: expand_action_def)
  from explore_preconditions_more_budget [OF assms(1) q] assms(2) q show ?thesis
    by (simp add: expand_action_def)
qed

lemma explore_actions_more_budget:
  assumes "\<And>goal r. solve goal = Some r \<Longrightarrow> solve' goal = Some r"
    and "explore_actions solve eo acts chosen = Some r"
  shows "explore_actions solve' eo acts chosen = Some r"
  using assms(2)
proof (induction acts arbitrary: chosen)
  case Nil
  then show ?case by simp
next
  case (Cons a acts)
  from Cons.prems obtain q where q: "expand_action solve eo a = Some q"
    by (cases "expand_action solve eo a") auto
  from expand_action_more_budget [OF assms(1) q] have q': "expand_action solve' eo a = Some q" .
  show ?case
  proof (cases q)
    case (Inl e)
    with Cons.prems q q' show ?thesis by auto
  next
    case (Inr ap)
    let ?next = "if chosen = [] then ap
                 else if cost_less (path_cost ap) (path_cost chosen) then ap else chosen"
    from Cons.prems q Inr have "explore_actions solve eo acts ?next = Some r" by simp
    from Cons.IH [OF this] q' Inr show ?thesis by simp
  qed
qed

lemma find_actions_more_budget:
  "find_actions n lk goal start = Some r \<Longrightarrow> find_actions (Suc n) lk goal start = Some r"
proof (induction n arbitrary: goal r)
  case 0
  then show ?case by simp
next
  case (Suc n)
  let ?solve = "\<lambda>goal. find_actions n lk goal start"
  let ?solve' = "\<lambda>goal. find_actions (Suc n) lk goal start"
  have m: "explore_actions ?solve' eo acts [] = Some q"
    if "explore_actions ?solve eo acts [] = Some q" for eo acts q
    using that by (rule explore_actions_more_budget [rotated]) (rule Suc.IH)
  show ?case
  proof (cases goal)
    case Nil
    with Suc.prems show ?thesis by simp
  next
    case (Cons kv rest)
    obtain gk gv0 where kv: "kv = (gk, gv0)" by (cases kv)
    obtain gv where gv: "check_references gv0 start = Inr gv"
      using check_references_total by blast
    let ?probable = "if lk (gk, gv) \<noteq> [] then lk (gk, gv) else lk (gk, VEllipsis)"
    show ?thesis
    proof (cases "(gk, gv) \<in> set start \<or> ?probable = []")
      case True
      with Suc.prems show ?thesis
        by (auto simp: Cons kv gv Let_def simp del: find_actions.simps(2)
            simp add: find_actions.simps(2) [of "Suc n"] find_actions.simps(2) [of n])
    next
      case False
      with Suc.prems obtain q where
        q: "explore_actions ?solve [(gk, gv)] ?probable [] = Some q"
        by (cases "explore_actions ?solve [(gk, gv)] ?probable []")
           (auto simp: Cons kv gv Let_def)
      from m [OF q] have q': "explore_actions ?solve' [(gk, gv)] ?probable [] = Some q" .
      have a: "find_actions (Suc n) lk goal start =
            (case q of Inl e \<Rightarrow> Some (Inl e)
             | Inr chosen \<Rightarrow> if cost_less (Fin float_max) (path_cost chosen)
                  then Some (Inl (GoalUnreachable goal)) else Some (Inr (unique chosen)))"
        using False q by (auto simp: Cons kv gv Let_def split: sum.splits)
      have b: "find_actions (Suc (Suc n)) lk goal start =
            (case q of Inl e \<Rightarrow> Some (Inl e)
             | Inr chosen \<Rightarrow> if cost_less (Fin float_max) (path_cost chosen)
                  then Some (Inl (GoalUnreachable goal)) else Some (Inr (unique chosen)))"
        using False q' unfolding find_actions.simps(2) [of "Suc n"]
        by (auto simp: Cons kv gv Let_def split: sum.splits simp del: find_actions.simps)
      from a b Suc.prems show ?thesis by simp
    qed
  qed
qed

lemma find_actions_budget_le:
  "n \<le> m \<Longrightarrow> find_actions n lk goal start = Some r \<Longrightarrow> find_actions m lk goal start = Some r"
  by (induction m) (auto simp: le_Suc_eq dest: find_actions_more_budget simp del: find_actions.simps)

end
